theory Spec2Isabelle
  imports Complex_Main
begin

section \<open>Data model\<close>

text \<open>
  JavaScript values, as far as the lock client looks at them: the constructor tests the
  truthiness of \<open>registryClient\<close> and \<open>lockId\<close> and the \<open>typeof\<close> of \<open>resourceId\<close>.
  Numbers are idealised as rationals, with \<open>NaN\<close> apart; an object is known by a tag only.
\<close>

datatype jsval =
    Undefined
  | Null
  | JBool bool
  | JNum rat
  | JNaN
  | JStr string
  | JObj string

fun truthy :: "jsval \<Rightarrow> bool" where
  "truthy Undefined = False"
| "truthy Null = False"
| "truthy (JBool b) = b"
| "truthy (JNum n) = (n \<noteq> 0)"
| "truthy JNaN = False"
| "truthy (JStr s) = (s \<noteq> [])"
| "truthy (JObj t) = True"

fun typeof :: "jsval \<Rightarrow> string" where
  "typeof Undefined = ''undefined''"
| "typeof Null = ''object''"
| "typeof (JBool b) = ''boolean''"
| "typeof (JNum n) = ''number''"
| "typeof JNaN = ''number''"
| "typeof (JStr s) = ''string''"
| "typeof (JObj t) = ''object''"

text \<open>
  Modelled from the spec: the \<open>Delay\<close> class of the package \<open>@distributed-systems/delay\<close>
  is not part of the sources. The spec describes it as a cancelable timer: started, it
  either fires after its duration or is canceled early. A field holding a delay is
  \<open>None\<close> while no delay object has been created.
\<close>

datatype delay = Pending | Canceled

definition cancelDelay :: "delay option \<Rightarrow> delay option" where
  "cancelDelay d = (case d of None \<Rightarrow> None | Some _ \<Rightarrow> Some Canceled)"

text \<open>
  The fields of a \<open>Lock\<close> instance. \<open>currentStatus\<close> and \<open>currentStatusName\<close> are
  \<open>undefined\<close> (\<open>None\<close>) until the constructor sets them. \<open>ttl\<close> and \<open>timeout\<close> are
  seconds. The http client has no state of its own and is left out.
\<close>

record Lock =
  registryClient :: jsval
  lockId :: jsval
  resourceId :: jsval
  currentStatusName :: "string option"
  currentStatus :: "nat option"
  ttl :: rat
  timeout :: rat
  doKeepAlive :: bool
  lockCallCount :: nat
  backOffFactor :: rat
  backOffUpperBound :: nat
  tryLockTimeout :: "delay option"
  keepAliveTimeout :: "delay option"

datatype error =
    RegistryClientMissing
  | ResourceIdNotString
  | InvalidStatusName string
  | StatusNotHigher "string option" "nat option" string nat
  | LockNotAcquired "string option"
  | AcquireTimeout rat
  | CannotFree "string option"
  | InsufficientData
  | ResolveFailed
  | RequestFailed

section \<open>The status map and \<open>setStatus\<close>\<close>

definition lockStatusEntries :: "(string \<times> nat) list" where
  "lockStatusEntries =
    [(''initialized'', 100),
     (''acquiring'', 200),
     (''acquired'', 300),
     (''freeing'', 400),
     (''freed'', 500),
     (''canceled'', 850),
     (''timeout'', 900),
     (''failed'', 999)]"

definition lockStatusMap :: "string \<Rightarrow> nat option" where
  "lockStatusMap = map_of lockStatusEntries"

text \<open>
  \<open>setStatus\<close> either returns (\<open>None\<close>) or throws (\<open>Some e\<close>); the handle is returned in
  both cases, since an unknown name first sets the status \<open>failed\<close> and throws afterwards.
  The guard \<open>this.currentStatus && this.currentStatus >= status\<close> is skipped while the
  current status is \<open>undefined\<close> (or zero).
\<close>

function setStatus :: "string \<Rightarrow> Lock \<Rightarrow> error option \<times> Lock" where
  "setStatus statusName l =
    (case lockStatusMap statusName of
       None \<Rightarrow>
         (case setStatus ''failed'' l of
            (Some e, l') \<Rightarrow> (Some e, l')
          | (None, l') \<Rightarrow> (Some (InvalidStatusName statusName), l'))
     | Some status \<Rightarrow>
         (case currentStatus l of
            None \<Rightarrow> (None, l\<lparr>currentStatus := Some status, currentStatusName := Some statusName\<rparr>)
          | Some cur \<Rightarrow>
              if cur \<noteq> 0 \<and> cur \<ge> status
              then (Some (StatusNotHigher (currentStatusName l) (currentStatus l) statusName status), l)
              else (None, l\<lparr>currentStatus := Some status, currentStatusName := Some statusName\<rparr>)))"
  by pat_completeness auto
termination
  by (relation "measure (\<lambda>(n, l). if lockStatusMap n = None then 1 else 0)")
     (auto simp: lockStatusMap_def lockStatusEntries_def)

section \<open>Construction\<close>

text \<open>
  The argument object of the \<open>Lock\<close> constructor. An option that is left out is
  \<open>undefined\<close> (\<open>None\<close>) and takes its default; the options are typed as their
  documentation types them (numbers and a boolean).
\<close>

record LockArgs =
  arg_keepAlive :: "bool option"
  arg_lockId :: jsval
  arg_registryClient :: jsval
  arg_resourceId :: jsval
  arg_timeout :: "rat option"
  arg_ttl :: "rat option"

definition default :: "'a \<Rightarrow> 'a option \<Rightarrow> 'a" where
  "default d v = (case v of None \<Rightarrow> d | Some x \<Rightarrow> x)"

text \<open>The instance before the constructor has set its identifier and status.\<close>

definition blankLock :: "LockArgs \<Rightarrow> Lock" where
  "blankLock a =
    \<lparr>registryClient = arg_registryClient a,
     lockId = Undefined,
     resourceId = Undefined,
     currentStatusName = None,
     currentStatus = None,
     ttl = default 30 (arg_ttl a),
     timeout = default 60 (arg_timeout a),
     doKeepAlive = default True (arg_keepAlive a),
     lockCallCount = 0,
     backOffFactor = 13 / 10,
     backOffUpperBound = 15,
     tryLockTimeout = None,
     keepAliveTimeout = None\<rparr>"

definition newLock :: "LockArgs \<Rightarrow> error + Lock" where
  "newLock a =
    (if \<not> truthy (arg_registryClient a) then Inl RegistryClientMissing
     else if truthy (arg_lockId a) then
       Inr ((blankLock a)\<lparr>lockId := arg_lockId a,
                          currentStatusName := Some ''acquired'',
                          currentStatus := lockStatusMap ''acquired''\<rparr>)
     else if typeof (arg_resourceId a) \<noteq> ''string'' then Inl ResourceIdNotString
     else
       (case setStatus ''initialized'' ((blankLock a)\<lparr>resourceId := arg_resourceId a\<rparr>) of
          (Some e, l) \<Rightarrow> Inl e
        | (None, l) \<Rightarrow> Inr l))"

text \<open>The factory. Its constructor keeps a registry client or builds one from the host.\<close>

record LockClient =
  client_registryClient :: jsval

definition newLockClient :: "jsval \<Rightarrow> jsval \<Rightarrow> error + LockClient" where
  "newLockClient rc serviceRegistryHost =
    (if truthy rc then Inr \<lparr>client_registryClient = rc\<rparr>
     else if truthy serviceRegistryHost then Inr \<lparr>client_registryClient = JObj ''RegistryClient''\<rparr>
     else Inl RegistryClientMissing)"

record Options =
  opt_ttl :: "rat option"
  opt_timeout :: "rat option"
  opt_keepAlive :: "bool option"

definition noOptions :: Options where
  "noOptions = \<lparr>opt_ttl = None, opt_timeout = None, opt_keepAlive = None\<rparr>"

definition createLock :: "LockClient \<Rightarrow> jsval \<Rightarrow> Options \<Rightarrow> error + Lock" where
  "createLock c rid opts =
    newLock \<lparr>arg_keepAlive = Some (default True (opt_keepAlive opts)),
             arg_lockId = Undefined,
             arg_registryClient = client_registryClient c,
             arg_resourceId = rid,
             arg_timeout = Some (default 60 (opt_timeout opts)),
             arg_ttl = Some (default 30 (opt_ttl opts))\<rparr>"

definition adoptLock :: "LockClient \<Rightarrow> jsval \<Rightarrow> Options \<Rightarrow> error + Lock" where
  "adoptLock c lid opts =
    newLock \<lparr>arg_keepAlive = Some (default True (opt_keepAlive opts)),
             arg_lockId = lid,
             arg_registryClient = client_registryClient c,
             arg_resourceId = Undefined,
             arg_timeout = Some (default 60 (opt_timeout opts)),
             arg_ttl = Some (default 30 (opt_ttl opts))\<rparr>"

section \<open>Operations of a handle\<close>

definition isAcquired :: "Lock \<Rightarrow> bool" where
  "isAcquired l = truthy (lockId l)"

definition getId :: "Lock \<Rightarrow> error + jsval" where
  "getId l = (if isAcquired l then Inr (lockId l) else Inl (LockNotAcquired (currentStatusName l)))"

text \<open>
  The lock service and the registry are outside the program: every operation takes the
  outcomes of its remote calls as arguments and returns, beside the handle, the list of
  the requests and waits it has issued, in order.
\<close>

datatype request =
    CreateLock rat jsval
  | DeleteLock jsval
  | RenewLock jsval

datatype event =
    Resolved string
  | Sent request
  | Waited rat
  | Logged error

text \<open>The response to the create request: 201 with its data, 409, or anything else.\<close>

datatype post_response =
    Created "jsval option"
  | Conflict
  | PostRejected

record remote =
  resolve_ok :: bool
  request_ok :: bool

text \<open>
  Modelled from the spec: what \<open>Delay.wait\<close> does to the function awaiting it is not in
  the sources. The spec has the timer fire after its duration or be canceled early; an
  awaited delay then either lets its caller go on, or was canceled and never settles.
\<close>

datatype wait_outcome = Resumed | NeverResumed

text \<open>
  How an asynchronous call ends: it returns, it throws, it never settles because the delay
  it awaits was canceled, or the list of loop passes given to the model has run out
  before the loop has ended.
\<close>

datatype completion = Returned | Threw error | Hung | ScriptExhausted

definition tryToLock :: "Lock \<Rightarrow> bool \<Rightarrow> post_response \<Rightarrow> (error + jsval) \<times> event list" where
  "tryToLock l resolves resp =
    (if \<not> resolves then (Inl ResolveFailed, [Resolved ''rda-lock''])
     else
       (let evs = [Resolved ''rda-lock'', Sent (CreateLock (ttl l) (resourceId l))] in
        case resp of
          PostRejected \<Rightarrow> (Inl RequestFailed, evs)
        | Conflict \<Rightarrow> (Inr Undefined, evs)
        | Created None \<Rightarrow> (Inl InsufficientData, evs)
        | Created (Some ident) \<Rightarrow>
            if \<not> truthy ident then (Inl InsufficientData, evs) else (Inr ident, evs)))"

definition free :: "bool \<Rightarrow> Lock \<Rightarrow> remote \<Rightarrow> error option \<times> Lock \<times> event list" where
  "free ignoreStatus l env =
    (if \<not> ignoreStatus \<and> currentStatusName l \<noteq> Some ''acquired''
     then (Some (CannotFree (currentStatusName l)), l, [])
     else
       (case setStatus ''freeing'' (l\<lparr>keepAliveTimeout := cancelDelay (keepAliveTimeout l)\<rparr>) of
          (Some e, l1) \<Rightarrow> (Some e, l1, [])
        | (None, l1) \<Rightarrow>
            if \<not> resolve_ok env then (Some ResolveFailed, l1, [Resolved ''rda-lock''])
            else
              (let evs = [Resolved ''rda-lock'', Sent (DeleteLock (lockId l1))] in
               if \<not> request_ok env then
                 (case setStatus ''failed'' l1 of
                    (Some e, l2) \<Rightarrow> (Some e, l2, evs)
                  | (None, l2) \<Rightarrow> (Some RequestFailed, l2, evs))
               else
                 (case setStatus ''freed'' l1 of (r, l2) \<Rightarrow> (r, l2, evs)))))"

definition cancel :: "Lock \<Rightarrow> remote \<Rightarrow> error option \<times> Lock \<times> event list" where
  "cancel l env =
    (case (if currentStatusName l = Some ''acquired'' then free False l env else (None, l, [])) of
       (Some e, l1, evs) \<Rightarrow> (Some e, l1, evs)
     | (None, l1, evs) \<Rightarrow> (None, l1\<lparr>tryLockTimeout := cancelDelay (tryLockTimeout l1)\<rparr>, evs))"

definition keepAlive :: "Lock \<Rightarrow> wait_outcome \<Rightarrow> remote \<Rightarrow> completion \<times> Lock \<times> event list" where
  "keepAlive l w env =
    (let timeoutTime = round (ttl l * (66 / 100) * 1000);
         l1 = l\<lparr>keepAliveTimeout := Some Pending\<rparr>;
         evs = [Waited (of_int timeoutTime)]
     in case w of
          NeverResumed \<Rightarrow> (Hung, l1, evs)
        | Resumed \<Rightarrow>
            if \<not> resolve_ok env then (Threw ResolveFailed, l1, evs @ [Resolved ''rda-lock''])
            else
              (let evs' = evs @ [Resolved ''rda-lock'', Sent (RenewLock (lockId l1))] in
               if \<not> request_ok env then
                 (case setStatus ''failed'' l1 of
                    (Some e, l2) \<Rightarrow> (Threw e, l2, evs')
                  | (None, l2) \<Rightarrow> (Threw RequestFailed, l2, evs'))
               else (Returned, l1, evs')))"

section \<open>The acquisition loop\<close>

text \<open>
  \<open>lock\<close> is asynchronous: while it awaits a response or a delay, other calls on the same
  handle run. A call made in the meantime is one of the two public operations that do
  something in that state; its own result is dropped, its effect on the handle and its
  requests stay.
\<close>

datatype call = CallCancel remote | CallFree bool remote

fun applyCall :: "call \<Rightarrow> Lock \<Rightarrow> Lock \<times> event list" where
  "applyCall (CallCancel env) l = snd (cancel l env)"
| "applyCall (CallFree ignoreStatus env) l = snd (free ignoreStatus l env)"

fun applyCalls :: "call list \<Rightarrow> Lock \<Rightarrow> Lock \<times> event list" where
  "applyCalls [] l = (l, [])"
| "applyCalls (c # cs) l =
    (case applyCall c l of (l1, evs) \<Rightarrow>
       (case applyCalls cs l1 of (l2, evs') \<Rightarrow> (l2, evs @ evs')))"

text \<open>
  What one pass through the loop meets: the clock at the loop test, the outcome of the
  registry lookup and of the create request, the calls made while the request is in
  flight, the outcome of the delete request should the loop free the lock at once, the
  calls made during the back-off delay and whether that delay lets the loop go on.
\<close>

record iteration =
  now :: rat
  resolves :: bool
  response :: post_response
  during_request :: "call list"
  free_remote :: remote
  during_wait :: "call list"
  wait :: wait_outcome

text \<open>
  The end of \<open>lock\<close>, after the loop. The keep-alive activity is started without being
  awaited and its error is logged; its events are listed after those of \<open>lock\<close>.
\<close>

definition lockEnd :: "Lock \<Rightarrow> wait_outcome \<times> remote \<Rightarrow> completion \<times> Lock \<times> event list" where
  "lockEnd l ka =
    (if currentStatusName l = Some ''acquired'' then
       (if doKeepAlive l then
          (case keepAlive l (fst ka) (snd ka) of
             (Threw e, l1, evs) \<Rightarrow> (Returned, l1, evs @ [Logged e])
           | (c, l1, evs) \<Rightarrow> (Returned, l1, evs))
        else (Returned, l, []))
     else
       (case setStatus ''timeout'' l of
          (Some e, l1) \<Rightarrow> (Threw e, l1, [])
        | (None, l1) \<Rightarrow> (Threw (AcquireTimeout (timeout l1)), l1, [])))"

text \<open>The branch of the loop taken when the create request has returned an identifier.\<close>

definition lockGranted ::
  "Lock \<Rightarrow> jsval \<Rightarrow> remote \<Rightarrow> wait_outcome \<times> remote \<Rightarrow> completion \<times> Lock \<times> event list" where
  "lockGranted l ident env ka =
    (if (case (currentStatus l, lockStatusMap ''acquired'') of
           (Some cur, Some acquired) \<Rightarrow> cur > acquired
         | _ \<Rightarrow> False)
     then
       (case free True l env of
          (Some e, l1, evs) \<Rightarrow> (Threw e, l1, evs)
        | (None, l1, evs) \<Rightarrow>
            (case lockEnd l1 ka of (c, l2, evs') \<Rightarrow> (c, l2, evs @ evs')))
     else
       (case setStatus ''acquired'' l of
          (Some e, l1) \<Rightarrow> (Threw e, l1, [])
        | (None, l1) \<Rightarrow> lockEnd (l1\<lparr>lockId := ident\<rparr>) ka))"

definition backOffTime :: "Lock \<Rightarrow> rat" where
  "backOffTime l = backOffFactor l ^ min (backOffUpperBound l) (lockCallCount l) * 1000"

text \<open>The three fields the back-off time is computed from.\<close>

definition backOffOf :: "Lock \<Rightarrow> nat \<times> rat \<times> nat" where
  "backOffOf l = (lockCallCount l, backOffFactor l, backOffUpperBound l)"

fun lockLoop ::
  "Lock \<Rightarrow> rat \<Rightarrow> iteration list \<Rightarrow> wait_outcome \<times> remote \<Rightarrow> completion \<times> Lock \<times> event list" where
  "lockLoop l lockStart [] ka = (ScriptExhausted, l, [])"
| "lockLoop l lockStart (it # its) ka =
    (if lockStart + timeout l * 1000 > now it then
       (case tryToLock l (resolves it) (response it) of (r, evs) \<Rightarrow>
        case applyCalls (during_request it) l of (l1, evs1) \<Rightarrow>
          (case r of
             Inl e \<Rightarrow> (Threw e, l1, evs @ evs1)
           | Inr ident \<Rightarrow>
               if truthy ident then
                 (case lockGranted l1 ident (free_remote it) ka of
                    (c, l2, evs2) \<Rightarrow> (c, l2, evs @ evs1 @ evs2))
               else
                 (let l2 = l1\<lparr>tryLockTimeout := Some Pending\<rparr>;
                      evs2 = [Waited (backOffTime l1)]
                  in case applyCalls (during_wait it) l2 of (l3, evs3) \<Rightarrow>
                     (case wait it of
                        NeverResumed \<Rightarrow> (Hung, l3, evs @ evs1 @ evs2 @ evs3)
                      | Resumed \<Rightarrow>
                          (case lockLoop l3 lockStart its ka of
                             (c, l4, evs4) \<Rightarrow> (c, l4, evs @ evs1 @ evs2 @ evs3 @ evs4))))))
     else lockEnd l ka)"

definition lock ::
  "Lock \<Rightarrow> rat \<Rightarrow> iteration list \<Rightarrow> wait_outcome \<times> remote \<Rightarrow> completion \<times> Lock \<times> event list" where
  "lock l lockStart its ka =
    (case setStatus ''acquiring'' l of
       (Some e, l1) \<Rightarrow> (Threw e, l1, [])
     | (None, l1) \<Rightarrow> lockLoop l1 lockStart its ka)"

section \<open>Status ranks and runs of operations\<close>

text \<open>
  The rank of a handle is the number the status map gives its status. A handle is
  consistent when its status name is a key of the map and its status number is the
  number of that name, as the constructor and \<open>setStatus\<close> leave it.
\<close>

definition statusRank :: "Lock \<Rightarrow> nat" where
  "statusRank l = (case currentStatus l of None \<Rightarrow> 0 | Some c \<Rightarrow> c)"

definition statusConsistent :: "Lock \<Rightarrow> bool" where
  "statusConsistent l =
    (case currentStatusName l of
       None \<Rightarrow> False
     | Some n \<Rightarrow> lockStatusMap n \<noteq> None \<and> currentStatus l = lockStatusMap n)"

text \<open>
  The order of the states as the specification lists them, and the place of a handle's
  status in that list (counted from one; zero without a status).
\<close>

definition specOrder :: "string list" where
  "specOrder = [''initialized'', ''acquiring'', ''acquired'', ''freeing'', ''freed'',
                ''canceled'', ''timeout'', ''failed'']"

fun indexOf :: "string \<Rightarrow> string list \<Rightarrow> nat" where
  "indexOf x [] = 0"
| "indexOf x (y # ys) = (if x = y then 0 else Suc (indexOf x ys))"

definition specRank :: "Lock \<Rightarrow> nat" where
  "specRank l = (case currentStatusName l of None \<Rightarrow> 0 | Some n \<Rightarrow> Suc (indexOf n specOrder))"

text \<open>
  \<open>advances l l'\<close>: the handle \<open>l'\<close> is consistent and its status is that of \<open>l\<close> or one
  of strictly greater rank.
\<close>

definition advances :: "Lock \<Rightarrow> Lock \<Rightarrow> bool" where
  "advances l l' =
    (statusConsistent l' \<and>
     (currentStatusName l' = currentStatusName l \<and> currentStatus l' = currentStatus l
      \<or> statusRank l < statusRank l'))"

text \<open>The operations a caller or a background activity may run on a handle, one after the other.\<close>

datatype operation =
    OpLock rat "iteration list" "wait_outcome \<times> remote"
  | OpCall call
  | OpKeepAlive wait_outcome remote
  | OpSetStatus string

fun applyOp :: "operation \<Rightarrow> Lock \<Rightarrow> Lock" where
  "applyOp (OpLock lockStart its ka) l = fst (snd (lock l lockStart its ka))"
| "applyOp (OpCall c) l = fst (applyCall c l)"
| "applyOp (OpKeepAlive w env) l = fst (snd (keepAlive l w env))"
| "applyOp (OpSetStatus n) l = snd (setStatus n l)"

fun run :: "operation list \<Rightarrow> Lock \<Rightarrow> Lock" where
  "run [] l = l"
| "run (op # ops) l = run ops (applyOp op l)"

text \<open>The number of renew requests in a list of events.\<close>

fun isRenew :: "event \<Rightarrow> bool" where
  "isRenew (Sent (RenewLock i)) = True"
| "isRenew e = False"

definition renewals :: "event list \<Rightarrow> nat" where
  "renewals evs = length (filter isRenew evs)"

section \<open>Example handles and environments\<close>

definition exampleClient :: LockClient where
  "exampleClient = \<lparr>client_registryClient = JObj ''RegistryClient''\<rparr>"

text \<open>The handle \<open>createLock\<close> returns for the resource \<open>R\<close> without options.\<close>

definition freshHandle :: Lock where
  "freshHandle =
    \<lparr>registryClient = JObj ''RegistryClient'',
     lockId = Undefined,
     resourceId = JStr ''R'',
     currentStatusName = Some ''initialized'',
     currentStatus = Some 100,
     ttl = 30,
     timeout = 60,
     doKeepAlive = True,
     lockCallCount = 0,
     backOffFactor = 13 / 10,
     backOffUpperBound = 15,
     tryLockTimeout = None,
     keepAliveTimeout = None\<rparr>"

text \<open>The handle \<open>adoptLock\<close> returns for the lock identifier 7 without options.\<close>

definition adoptedHandle :: Lock where
  "adoptedHandle =
    \<lparr>registryClient = JObj ''RegistryClient'',
     lockId = JNum 7,
     resourceId = Undefined,
     currentStatusName = Some ''acquired'',
     currentStatus = Some 300,
     ttl = 30,
     timeout = 60,
     doKeepAlive = True,
     lockCallCount = 0,
     backOffFactor = 13 / 10,
     backOffUpperBound = 15,
     tryLockTimeout = None,
     keepAliveTimeout = None\<rparr>"

definition okRemote :: remote where
  "okRemote = \<lparr>resolve_ok = True, request_ok = True\<rparr>"

definition noRegistry :: remote where
  "noRegistry = \<lparr>resolve_ok = False, request_ok = True\<rparr>"

definition deleteFails :: remote where
  "deleteFails = \<lparr>resolve_ok = True, request_ok = False\<rparr>"

text \<open>A pass of the loop at clock \<open>t\<close> that meets a conflict, and one that is granted lock 7.\<close>

definition conflictPass :: "rat \<Rightarrow> iteration" where
  "conflictPass t =
    \<lparr>now = t, resolves = True, response = Conflict, during_request = [],
     free_remote = okRemote, during_wait = [], wait = Resumed\<rparr>"

definition grantPass :: "rat \<Rightarrow> iteration" where
  "grantPass t =
    \<lparr>now = t, resolves = True, response = Created (Some (JNum 7)), during_request = [],
     free_remote = okRemote, during_wait = [], wait = Resumed\<rparr>"

section \<open>Facts about the status map\<close>

declare setStatus.simps [simp del]

lemma lockStatusMap_failed: "lockStatusMap ''failed'' = Some 999"
  by (simp add: lockStatusMap_def lockStatusEntries_def)

lemma lockStatusMap_SomeD:
  "lockStatusMap n = Some s \<Longrightarrow> (n, s) \<in> set lockStatusEntries"
  unfolding lockStatusMap_def by (rule map_of_SomeD)

lemma lockStatusMap_bounds: "lockStatusMap n = Some s \<Longrightarrow> 0 < s \<and> s \<le> 999"
  by (drule lockStatusMap_SomeD) (auto simp: lockStatusEntries_def)

lemma setStatus_known:
  "lockStatusMap n = Some s \<Longrightarrow>
   setStatus n l =
     (case currentStatus l of
        None \<Rightarrow> (None, l\<lparr>currentStatus := Some s, currentStatusName := Some n\<rparr>)
      | Some cur \<Rightarrow>
          if cur \<noteq> 0 \<and> cur \<ge> s
          then (Some (StatusNotHigher (currentStatusName l) (currentStatus l) n s), l)
          else (None, l\<lparr>currentStatus := Some s, currentStatusName := Some n\<rparr>))"
  by (subst setStatus.simps) simp

lemma setStatus_unknown:
  "lockStatusMap n = None \<Longrightarrow>
   setStatus n l =
     (case setStatus ''failed'' l of
        (Some e, l') \<Rightarrow> (Some e, l')
      | (None, l') \<Rightarrow> (Some (InvalidStatusName n), l'))"
  by (subst setStatus.simps) simp


lemma sorted_entries_rank:
  "distinct (map fst xs) \<Longrightarrow> sorted_wrt (<) (map snd xs) \<Longrightarrow>
   (a, x) \<in> set xs \<Longrightarrow> (b, y) \<in> set xs \<Longrightarrow>
   ((x::nat) < y) = (indexOf a (map fst xs) < indexOf b (map fst xs))"
proof (induction xs)
  case Nil
  then show ?case by simp
next
  case (Cons p ps)
  obtain k v where p: "p = (k, v)" by (cases p)
  from Cons.prems p have fresh: "\<forall>(k', v') \<in> set ps. k' \<noteq> k \<and> v < v'"
    by (auto simp: rev_image_eqI)
  show ?case
  proof (cases "a = k")
    case True
    with Cons.prems p fresh have x: "x = v" by auto
    show ?thesis
    proof (cases "b = k")
      case True
      with Cons.prems p fresh have "y = v" by auto
      with x \<open>a = k\<close> \<open>b = k\<close> p show ?thesis by simp
    next
      case False
      with Cons.prems p have "(b, y) \<in> set ps" by auto
      with fresh have "v < y" by auto
      with x \<open>a = k\<close> False p show ?thesis by simp
    qed
  next
    case False
    with Cons.prems p have a: "(a, x) \<in> set ps" by auto
    show ?thesis
    proof (cases "b = k")
      case True
      with Cons.prems p fresh have "y = v" by auto
      moreover from a fresh have "v < x" by auto
      ultimately show ?thesis using False True p by simp
    next
      case bk: False
      with Cons.prems p have "(b, y) \<in> set ps" by auto
      with Cons.IH a Cons.prems have "(x < y) = (indexOf a (map fst ps) < indexOf b (map fst ps))"
        by simp
      with False bk p show ?thesis by simp
    qed
  qed
qed

lemma entries_in_spec_order:
  "map fst lockStatusEntries = specOrder \<and> distinct specOrder \<and>
   sorted_wrt (<) (map snd lockStatusEntries)"
  by (simp add: lockStatusEntries_def specOrder_def)

lemma lockStatusMap_rank:
  assumes "lockStatusMap a = Some x" and "lockStatusMap b = Some y"
  shows "(x < y) = (indexOf a specOrder < indexOf b specOrder)"
proof -
  have "(x < y) = (indexOf a (map fst lockStatusEntries) < indexOf b (map fst lockStatusEntries))"
    using entries_in_spec_order lockStatusMap_SomeD [OF assms(1)] lockStatusMap_SomeD [OF assms(2)]
    by (intro sorted_entries_rank) simp_all
  then show ?thesis using entries_in_spec_order by simp
qed


lemma statusConsistentD:
  assumes "statusConsistent l"
  obtains n c where "currentStatusName l = Some n" and "currentStatus l = Some c"
    and "lockStatusMap n = Some c" and "0 < c" and "c \<le> 999" and "statusRank l = c"
proof -
  from assms obtain n where n: "currentStatusName l = Some n"
    by (auto simp: statusConsistent_def split: option.splits)
  with assms obtain c where c: "lockStatusMap n = Some c" "currentStatus l = Some c"
    by (auto simp: statusConsistent_def)
  from lockStatusMap_bounds [OF c(1)] n c that show thesis
    by (simp add: statusRank_def)
qed

lemma setStatus_consistent:
  assumes "statusConsistent l"
  shows "setStatus n l =
    (case lockStatusMap n of
       Some s \<Rightarrow>
         if s \<le> statusRank l
         then (Some (StatusNotHigher (currentStatusName l) (currentStatus l) n s), l)
         else (None, l\<lparr>currentStatus := Some s, currentStatusName := Some n\<rparr>)
     | None \<Rightarrow>
         if 999 \<le> statusRank l
         then (Some (StatusNotHigher (currentStatusName l) (currentStatus l) ''failed'' 999), l)
         else (Some (InvalidStatusName n),
               l\<lparr>currentStatus := Some 999, currentStatusName := Some ''failed''\<rparr>))"
proof -
  from assms obtain m c where l: "currentStatus l = Some c" "0 < c" "statusRank l = c"
    by (rule statusConsistentD)
  have known: "setStatus k l =
      (if s \<le> c then (Some (StatusNotHigher (currentStatusName l) (currentStatus l) k s), l)
       else (None, l\<lparr>currentStatus := Some s, currentStatusName := Some k\<rparr>))"
    if "lockStatusMap k = Some s" for k s
    using that l by (simp add: setStatus_known)
  show ?thesis
  proof (cases "lockStatusMap n")
    case None
    then show ?thesis
      using l known [OF lockStatusMap_failed] by (simp add: setStatus_unknown)
  next
    case (Some s)
    then show ?thesis using l known [OF Some] by simp
  qed
qed

lemma advances_refl: "statusConsistent l \<Longrightarrow> advances l l"
  by (simp add: advances_def)

lemma advances_trans: "advances a b \<Longrightarrow> advances b c \<Longrightarrow> advances a c"
  by (auto simp: advances_def statusRank_def)

lemma advances_consistent: "advances l l' \<Longrightarrow> statusConsistent l'"
  by (simp add: advances_def)

lemma setStatus_advances:
  assumes "statusConsistent l"
  shows "advances l (snd (setStatus n l))"
proof (cases "lockStatusMap n")
  case None
  with assms lockStatusMap_failed show ?thesis
    by (auto simp: setStatus_consistent advances_def statusConsistent_def statusRank_def
             split: option.splits)
next
  case (Some s)
  with assms show ?thesis
    by (auto simp: setStatus_consistent advances_def statusConsistent_def statusRank_def
             split: option.splits)
qed

lemma statusConsistent_update [simp]:
  "statusConsistent (l\<lparr>keepAliveTimeout := d\<rparr>) = statusConsistent l"
  "statusConsistent (l\<lparr>tryLockTimeout := d\<rparr>) = statusConsistent l"
  "statusConsistent (l\<lparr>lockId := x\<rparr>) = statusConsistent l"
  by (simp_all add: statusConsistent_def split: option.split)

lemma statusRank_update [simp]:
  "statusRank (l\<lparr>keepAliveTimeout := d\<rparr>) = statusRank l"
  "statusRank (l\<lparr>tryLockTimeout := d\<rparr>) = statusRank l"
  "statusRank (l\<lparr>lockId := x\<rparr>) = statusRank l"
  by (simp_all add: statusRank_def)

lemma advances_update [simp]:
  "advances l (l'\<lparr>keepAliveTimeout := d\<rparr>) = advances l l'"
  "advances (l\<lparr>keepAliveTimeout := d\<rparr>) l' = advances l l'"
  "advances l (l'\<lparr>tryLockTimeout := d\<rparr>) = advances l l'"
  "advances (l\<lparr>tryLockTimeout := d\<rparr>) l' = advances l l'"
  "advances l (l'\<lparr>lockId := x\<rparr>) = advances l l'"
  "advances (l\<lparr>lockId := x\<rparr>) l' = advances l l'"
  by (simp_all add: advances_def)

lemma setStatus_advances_from:
  assumes "advances l l1"
  shows "advances l (snd (setStatus n l1))"
  using assms setStatus_advances [OF advances_consistent [OF assms], of n]
  by (rule advances_trans)

lemma free_advances:
  assumes "advances l0 l"
  shows "advances l0 (fst (snd (free b l env)))"
proof -
  let ?l0 = "l\<lparr>keepAliveTimeout := cancelDelay (keepAliveTimeout l)\<rparr>"
  obtain r1 l1 where s1: "setStatus ''freeing'' ?l0 = (r1, l1)" by fastforce
  obtain r2 l2 where s2: "setStatus ''failed'' l1 = (r2, l2)" by fastforce
  obtain r3 l3 where s3: "setStatus ''freed'' l1 = (r3, l3)" by fastforce
  from assms have "advances l0 ?l0" by simp
  from setStatus_advances_from [OF this, of "''freeing''"] s1 have a1: "advances l0 l1" by simp
  from setStatus_advances_from [OF a1, of "''failed''"] s2 have a2: "advances l0 l2" by simp
  from setStatus_advances_from [OF a1, of "''freed''"] s3 have a3: "advances l0 l3" by simp
  show ?thesis
    using assms a1 a2 a3
    by (simp add: free_def s1 s2 s3 Let_def split: option.splits)
qed

lemma cancel_advances:
  assumes "advances l0 l"
  shows "advances l0 (fst (snd (cancel l env)))"
proof -
  obtain r1 l1 evs where f: "free False l env = (r1, l1, evs)" by (cases "free False l env") auto
  from free_advances [OF assms, of False env] f have "advances l0 l1" by simp
  with assms show ?thesis
    by (simp add: cancel_def f split: option.splits)
qed

lemma keepAlive_advances:
  assumes "advances l0 l"
  shows "advances l0 (fst (snd (keepAlive l w env)))"
proof -
  let ?l1 = "l\<lparr>keepAliveTimeout := Some Pending\<rparr>"
  obtain r2 l2 where s2: "setStatus ''failed'' ?l1 = (r2, l2)" by fastforce
  from assms have a1: "advances l0 ?l1" by simp
  from setStatus_advances_from [OF a1, of "''failed''"] s2 have "advances l0 l2" by simp
  with assms show ?thesis
    by (simp add: keepAlive_def s2 Let_def split: option.splits wait_outcome.splits)
qed


lemma applyCall_advances:
  "advances l0 l \<Longrightarrow> advances l0 (fst (applyCall c l))"
  by (cases c) (simp_all add: cancel_advances free_advances)

lemma applyCalls_advances:
  "advances l0 l \<Longrightarrow> advances l0 (fst (applyCalls cs l))"
proof (induction cs arbitrary: l)
  case Nil
  then show ?case by simp
next
  case (Cons c cs)
  from applyCall_advances [OF Cons.prems, of c]
  have "advances l0 (fst (applyCalls cs (fst (applyCall c l))))" by (rule Cons.IH)
  then show ?case by (auto split: prod.splits)
qed

lemma lockEnd_advances:
  assumes "advances l0 l"
  shows "advances l0 (fst (snd (lockEnd l ka)))"
proof -
  obtain c l1 evs where k: "keepAlive l (fst ka) (snd ka) = (c, l1, evs)"
    by (cases "keepAlive l (fst ka) (snd ka)") auto
  obtain r2 l2 where s2: "setStatus ''timeout'' l = (r2, l2)" by fastforce
  from keepAlive_advances [OF assms, of "fst ka" "snd ka"] k have "advances l0 l1" by simp
  moreover from setStatus_advances_from [OF assms, of "''timeout''"] s2 have "advances l0 l2"
    by simp
  ultimately show ?thesis using assms
    by (simp add: lockEnd_def k s2 split: option.splits completion.splits)
qed

lemma lockGranted_advances:
  assumes "advances l0 l"
  shows "advances l0 (fst (snd (lockGranted l ident env ka)))"
proof -
  obtain r1 l1 evs where f: "free True l env = (r1, l1, evs)" by (cases "free True l env") auto
  obtain r2 l2 where s2: "setStatus ''acquired'' l = (r2, l2)" by fastforce
  from free_advances [OF assms, of True env] f have a1: "advances l0 l1" by simp
  from setStatus_advances_from [OF assms, of "''acquired''"] s2 have a2: "advances l0 l2" by simp
  from a2 have "advances l0 (l2\<lparr>lockId := ident\<rparr>)" by simp
  from lockEnd_advances [OF a1, of ka] lockEnd_advances [OF this, of ka] a1 a2
  show ?thesis
    by (auto simp: lockGranted_def f s2 split: option.splits prod.splits)
qed

lemma lockLoop_advances:
  "advances l0 l \<Longrightarrow> advances l0 (fst (snd (lockLoop l lockStart its ka)))"
proof (induction its arbitrary: l)
  case Nil
  then show ?case by simp
next
  case (Cons it its)
  obtain r evs where t: "tryToLock l (resolves it) (response it) = (r, evs)"
    by (cases "tryToLock l (resolves it) (response it)") auto
  obtain l1 evs1 where c1: "applyCalls (during_request it) l = (l1, evs1)"
    by (cases "applyCalls (during_request it) l") auto
  obtain l3 evs3 where
    c3: "applyCalls (during_wait it) (l1\<lparr>tryLockTimeout := Some Pending\<rparr>) = (l3, evs3)"
    by (cases "applyCalls (during_wait it) (l1\<lparr>tryLockTimeout := Some Pending\<rparr>)") auto
  obtain c4 l4 evs4 where loop: "lockLoop l3 lockStart its ka = (c4, l4, evs4)"
    by (cases "lockLoop l3 lockStart its ka") auto
  from applyCalls_advances [OF Cons.prems, of "during_request it"] c1
  have a1: "advances l0 l1" by simp
  then have "advances l0 (l1\<lparr>tryLockTimeout := Some Pending\<rparr>)" by simp
  from applyCalls_advances [OF this, of "during_wait it"] c3
  have a3: "advances l0 l3" by simp
  from Cons.IH [OF a3] loop have a4: "advances l0 l4" by simp
  from Cons.prems have a6: "advances l0 (fst (snd (lockEnd l ka)))" by (rule lockEnd_advances)
  show ?case
  proof (cases r)
    case (Inl e)
    with a1 a6 show ?thesis by (simp add: t c1)
  next
    case (Inr ident)
    obtain cg lg eg where g: "lockGranted l1 ident (free_remote it) ka = (cg, lg, eg)"
      by (cases "lockGranted l1 ident (free_remote it) ka") auto
    from lockGranted_advances [OF a1, of ident "free_remote it" ka] g
    have "advances l0 lg" by simp
    with Inr a3 a4 a6 show ?thesis
      by (simp add: t c1 c3 loop g Let_def split: wait_outcome.splits)
  qed
qed

lemma lock_advances:
  assumes "advances l0 l"
  shows "advances l0 (fst (snd (lock l lockStart its ka)))"
proof -
  obtain r1 l1 where s1: "setStatus ''acquiring'' l = (r1, l1)" by fastforce
  from setStatus_advances_from [OF assms, of "''acquiring''"] s1 have "advances l0 l1" by simp
  from this lockLoop_advances [OF this, of lockStart its ka] show ?thesis
    by (simp add: lock_def s1 split: option.splits)
qed


section \<open>Ranks in the order of the specification\<close>

lemma specRank_order:
  assumes "statusConsistent l" and "statusConsistent l'"
  shows "(statusRank l < statusRank l') = (specRank l < specRank l')"
proof -
  from assms(1) obtain a x where a: "currentStatusName l = Some a" "lockStatusMap a = Some x"
    "statusRank l = x" by (rule statusConsistentD)
  from assms(2) obtain b y where b: "currentStatusName l' = Some b" "lockStatusMap b = Some y"
    "statusRank l' = y" by (rule statusConsistentD)
  from lockStatusMap_rank [OF a(2) b(2)] a b show ?thesis
    by (simp add: specRank_def)
qed

lemma applyOp_advances: "advances l0 l \<Longrightarrow> advances l0 (applyOp op l)"
  by (cases op)
     (simp_all add: lock_advances applyCall_advances keepAlive_advances setStatus_advances_from)

lemma run_advances: "advances l0 l \<Longrightarrow> advances l0 (run ops l)"
  by (induction ops arbitrary: l) (simp_all add: applyOp_advances)

lemma newLock_consistent:
  assumes "newLock a = Inr l"
  shows "statusConsistent l"
proof -
  have i: "lockStatusMap ''initialized'' = Some 100" and q: "lockStatusMap ''acquired'' = Some 300"
    by (simp_all add: lockStatusMap_def lockStatusEntries_def)
  have "setStatus ''initialized'' ((blankLock a)\<lparr>resourceId := arg_resourceId a\<rparr>) =
      (None, (blankLock a)\<lparr>resourceId := arg_resourceId a, currentStatus := Some 100,
                            currentStatusName := Some ''initialized''\<rparr>)"
    by (simp add: setStatus_known [OF i] blankLock_def)
  with assms show ?thesis
    by (auto simp: newLock_def statusConsistent_def i q split: if_splits)
qed

lemma freshHandle_consistent: "statusConsistent freshHandle"
  by (simp add: statusConsistent_def freshHandle_def lockStatusMap_def lockStatusEntries_def)

lemma adoptedHandle_consistent: "statusConsistent adoptedHandle"
  by (simp add: statusConsistent_def adoptedHandle_def lockStatusMap_def lockStatusEntries_def)

section \<open>The status only advances\<close>

lemma run_append: "run (pre @ ops) l = run ops (run pre l)"
  by (induction pre arbitrary: l) simp_all

lemma constructed_consistent:
  assumes "newLock a = Inr l0"
  shows "statusConsistent (run ops l0)"
  using run_advances [OF advances_refl [OF newLock_consistent [OF assms]], of ops]
  by (rule advances_consistent)

lemma consistent_status_advances:
  assumes "statusConsistent l"
  shows "(setStatus n l = (None, l') \<longrightarrow>
           currentStatusName l' = Some n \<and> statusConsistent l' \<and> specRank l < specRank l')
       \<and> (currentStatusName (run ops l) = currentStatusName l \<or> specRank l < specRank (run ops l))"
proof (intro conjI impI)
  assume s: "setStatus n l = (None, l')"
  from setStatus_advances [OF assms, of n] s have adv: "advances l l'" by simp
  then show c: "statusConsistent l'" by (rule advances_consistent)
  from s assms show nm: "currentStatusName l' = Some n"
    by (auto simp: setStatus_consistent split: option.splits if_splits)
  from s assms have "statusRank l < statusRank l'"
    by (auto simp: setStatus_consistent statusRank_def split: option.splits if_splits)
  with specRank_order [OF assms c] show "specRank l < specRank l'" by simp
next
  from run_advances [OF advances_refl [OF assms], of ops]
  have adv: "advances l (run ops l)" .
  with specRank_order [OF assms advances_consistent [OF adv]]
  show "currentStatusName (run ops l) = currentStatusName l \<or> specRank l < specRank (run ops l)"
    by (auto simp: advances_def)
qed

text \<open>
  C1. Take any handle the constructor has returned and any sequence of \<open>lock\<close>, \<open>free\<close>,
  \<open>cancel\<close>, keep-alive and \<open>setStatus\<close> calls on it. A call of \<open>setStatus\<close> that
  succeeds at that point leaves the handle in the status asked for, and that status stands
  strictly later than the previous one in the order initialized, acquiring, acquired,
  freeing, freed, canceled, timeout, failed. Every status write of the program goes
  through \<open>setStatus\<close>, so whatever operations follow, the status is then either the one
  it was or one strictly later in that order.
\<close>

theorem status_strictly_advances:
  assumes "newLock a = Inr l0"
  shows "(setStatus n (run pre l0) = (None, l') \<longrightarrow>
           currentStatusName l' = Some n \<and> specRank (run pre l0) < specRank l')
       \<and> (currentStatusName (run (pre @ ops) l0) = currentStatusName (run pre l0)
          \<or> specRank (run pre l0) < specRank (run (pre @ ops) l0))"
  using consistent_status_advances [OF constructed_consistent [OF assms, of pre], of n l' ops]
  by (simp add: run_append)

theorem status_strictly_advances_witness:
  "newLock \<lparr>arg_keepAlive = None, arg_lockId = Undefined,
            arg_registryClient = JObj ''RegistryClient'', arg_resourceId = JStr ''R'',
            arg_timeout = None, arg_ttl = None\<rparr> = Inr freshHandle
   \<and> run [OpLock 0 [conflictPass 1, grantPass 1002] (Resumed, okRemote)] freshHandle =
       freshHandle\<lparr>lockId := JNum 7, currentStatus := Some 300,
                   currentStatusName := Some ''acquired'', tryLockTimeout := Some Pending,
                   keepAliveTimeout := Some Pending\<rparr>
   \<and> setStatus ''freeing''
        (run [OpLock 0 [conflictPass 1, grantPass 1002] (Resumed, okRemote)] freshHandle) =
       (None,
        freshHandle\<lparr>lockId := JNum 7, currentStatus := Some 400,
                    currentStatusName := Some ''freeing'', tryLockTimeout := Some Pending,
                    keepAliveTimeout := Some Pending\<rparr>)
   \<and> specRank (run [OpLock 0 [conflictPass 1, grantPass 1002] (Resumed, okRemote)] freshHandle)
       = 3
   \<and> specRank (freshHandle\<lparr>lockId := JNum 7, currentStatus := Some 400,
                    currentStatusName := Some ''freeing'', tryLockTimeout := Some Pending,
                    keepAliveTimeout := Some Pending\<rparr>) = 4
   \<and> currentStatusName
        (run ([OpLock 0 [conflictPass 1, grantPass 1002] (Resumed, okRemote)]
              @ [OpCall (CallFree False okRemote), OpCall (CallCancel okRemote)]) freshHandle)
       = Some ''freed''
   \<and> specRank (run [OpLock 0 [conflictPass 1, grantPass 1002] (Resumed, okRemote)] freshHandle)
       < specRank
          (run ([OpLock 0 [conflictPass 1, grantPass 1002] (Resumed, okRemote)]
                @ [OpCall (CallFree False okRemote), OpCall (CallCancel okRemote)]) freshHandle)"
proof -
  let ?a = "\<lparr>arg_keepAlive = None, arg_lockId = Undefined,
            arg_registryClient = JObj ''RegistryClient'', arg_resourceId = JStr ''R'',
            arg_timeout = None, arg_ttl = None\<rparr>"
  let ?pre = "[OpLock 0 [conflictPass 1, grantPass 1002] (Resumed, okRemote)]"
  let ?ops = "[OpCall (CallFree False okRemote), OpCall (CallCancel okRemote)]"
  let ?l = "freshHandle\<lparr>lockId := JNum 7, currentStatus := Some 300,
                   currentStatusName := Some ''acquired'', tryLockTimeout := Some Pending,
                   keepAliveTimeout := Some Pending\<rparr>"
  let ?l' = "freshHandle\<lparr>lockId := JNum 7, currentStatus := Some 400,
                    currentStatusName := Some ''freeing'', tryLockTimeout := Some Pending,
                    keepAliveTimeout := Some Pending\<rparr>"
  have c: "newLock ?a = Inr freshHandle" by code_simp
  have p: "run ?pre freshHandle = ?l" by code_simp
  have e: "setStatus ''freeing'' ?l = (None, ?l')" by code_simp
  have r: "specRank ?l = 3" "specRank ?l' = 4" by code_simp+
  have f: "currentStatusName (run (?pre @ ?ops) freshHandle) = Some ''freed''" by code_simp
  have d: "currentStatusName ?l \<noteq> Some ''freed''" by code_simp
  from status_strictly_advances [OF c, of "''freeing''" ?pre ?l' ?ops] p e f d
  have "specRank ?l < specRank (run (?pre @ ?ops) freshHandle)" by simp
  with c p e r f show ?thesis by simp
qed

section \<open>Invalid transitions\<close>

text \<open>
  C5, as stated, fails: for an unrecognized status name \<open>setStatus\<close> throws, but only
  after it has set the status \<open>failed\<close>. On the fresh handle the name \<open>bogus\<close> leaves the
  status \<open>failed\<close>, not \<open>initialized\<close>.
\<close>

theorem invalid_name_changes_status:
  "lockStatusMap ''bogus'' = None
   \<and> currentStatusName freshHandle = Some ''initialized''
   \<and> setStatus ''bogus'' freshHandle =
       (Some (InvalidStatusName ''bogus''),
        freshHandle\<lparr>currentStatus := Some 999, currentStatusName := Some ''failed''\<rparr>)
   \<and> currentStatusName (snd (setStatus ''bogus'' freshHandle)) \<noteq> currentStatusName freshHandle"
  by code_simp

text \<open>
  C5, amended. On a consistent handle (by \<open>constructed_consistent\<close>, every handle of
  the constructor at any later point), setting a status whose rank is lower than or equal
  to the current rank fails with an error and leaves the handle as it was. Setting an
  unrecognized status name fails with an error too, and leaves the handle in the status
  \<open>failed\<close>: the status is moved to \<open>failed\<close> before the error is raised, and stays
  as it was only when it was \<open>failed\<close> already.
\<close>

theorem invalid_transition_outcome:
  assumes "statusConsistent l"
  shows "case lockStatusMap n of
           Some s \<Rightarrow>
             s \<le> statusRank l \<longrightarrow>
             setStatus n l =
               (Some (StatusNotHigher (currentStatusName l) (currentStatus l) n s), l)
         | None \<Rightarrow>
             fst (setStatus n l) =
               Some (if 999 \<le> statusRank l
                     then StatusNotHigher (currentStatusName l) (currentStatus l) ''failed'' 999
                     else InvalidStatusName n)
             \<and> snd (setStatus n l) =
                 l\<lparr>currentStatus := Some 999, currentStatusName := Some ''failed''\<rparr>"
proof (cases "lockStatusMap n")
  case (Some s)
  with assms show ?thesis by (simp add: setStatus_consistent)
next
  case None
  from assms obtain a c where l: "currentStatusName l = Some a" "currentStatus l = Some c"
    "lockStatusMap a = Some c" "c \<le> 999" "statusRank l = c" by (rule statusConsistentD)
  have "l\<lparr>currentStatus := Some 999, currentStatusName := Some ''failed''\<rparr> = l" if "999 \<le> c"
  proof -
    from that l have c: "c = 999" by simp
    with lockStatusMap_SomeD [OF l(3)] have "a = ''failed''"
      by (auto simp: lockStatusEntries_def)
    with l c show ?thesis by simp
  qed
  with None assms l show ?thesis by (simp add: setStatus_consistent)
qed

theorem invalid_transition_outcome_witness:
  "statusConsistent adoptedHandle
   \<and> lockStatusMap ''acquiring'' = Some 200 \<and> 200 \<le> statusRank adoptedHandle
   \<and> setStatus ''acquiring'' adoptedHandle =
       (Some (StatusNotHigher (Some ''acquired'') (Some 300) ''acquiring'' 200), adoptedHandle)
   \<and> lockStatusMap ''locked'' = None
   \<and> fst (setStatus ''locked'' adoptedHandle) = Some (InvalidStatusName ''locked'')
   \<and> currentStatusName (snd (setStatus ''locked'' adoptedHandle)) = Some ''failed''"
proof -
  have h: "statusConsistent adoptedHandle" by code_simp
  have k: "lockStatusMap ''acquiring'' = Some 200" "lockStatusMap ''locked'' = None"
    "statusRank adoptedHandle = 300" "currentStatusName adoptedHandle = Some ''acquired''"
    "currentStatus adoptedHandle = Some 300"
    by code_simp+
  from invalid_transition_outcome [OF h, of "''acquiring''"]
       invalid_transition_outcome [OF h, of "''locked''"] h k
  show ?thesis by simp
qed

section \<open>\<open>lock\<close> outside the initialized status\<close>

lemma rank_not_initialized:
  assumes "lockStatusMap n = Some c" and "n \<noteq> ''initialized''"
  shows "200 \<le> c"
  using lockStatusMap_SomeD [OF assms(1)] assms(2) by (auto simp: lockStatusEntries_def)

text \<open>
  C6. On a consistent handle (every handle of the constructor at any later point) whose
  status is not \<open>initialized\<close>, as after an earlier \<open>lock\<close> or after adoption,
  \<open>lock\<close> fails with the invalid-state error of \<open>setStatus\<close>, issues no request and
  no wait, and returns the handle exactly as it was, whatever the clock and the service
  would have answered.
\<close>

theorem lock_requires_initialized:
  assumes "statusConsistent l" and "currentStatusName l \<noteq> Some ''initialized''"
  shows "lock l lockStart its ka =
    (Threw (StatusNotHigher (currentStatusName l) (currentStatus l) ''acquiring'' 200), l, [])"
proof -
  from assms(1) obtain n c where l: "currentStatusName l = Some n" "lockStatusMap n = Some c"
    "statusRank l = c" by (rule statusConsistentD)
  from rank_not_initialized [OF l(2)] assms(2) l(1) have c: "200 \<le> c" by simp
  have q: "lockStatusMap ''acquiring'' = Some 200"
    by (simp add: lockStatusMap_def lockStatusEntries_def)
  from assms(1) c l q show ?thesis
    by (simp add: lock_def setStatus_consistent)
qed

theorem lock_requires_initialized_witness:
  "statusConsistent (fst (snd (lock freshHandle 0 [grantPass 1] (Resumed, okRemote))))
   \<and> currentStatusName (fst (snd (lock freshHandle 0 [grantPass 1] (Resumed, okRemote))))
       \<noteq> Some ''initialized''
   \<and> fst (lock freshHandle 0 [grantPass 1] (Resumed, okRemote)) = Returned
   \<and> lock (fst (snd (lock freshHandle 0 [grantPass 1] (Resumed, okRemote)))) 2
        [grantPass 3] (Resumed, okRemote) =
       (Threw (StatusNotHigher (Some ''acquired'') (Some 300) ''acquiring'' 200),
        fst (snd (lock freshHandle 0 [grantPass 1] (Resumed, okRemote))), [])"
proof -
  let ?l = "fst (snd (lock freshHandle 0 [grantPass 1] (Resumed, okRemote)))"
  have h: "statusConsistent ?l" by code_simp
  have n: "currentStatusName ?l \<noteq> Some ''initialized''" by code_simp
  have k: "currentStatusName ?l = Some ''acquired''" "currentStatus ?l = Some 300"
    "fst (lock freshHandle 0 [grantPass 1] (Resumed, okRemote)) = Returned" by code_simp+
  from lock_requires_initialized [OF h n, of 2 "[grantPass 3]" "(Resumed, okRemote)"] h n k
  show ?thesis by simp
qed

section \<open>\<open>cancel\<close>\<close>

text \<open>
  C8. In the status \<open>acquired\<close>, \<open>cancel\<close> has the result, the requests and the status of
  \<open>free()\<close>. In every other status it returns without error, issues no request and
  returns the handle with nothing changed but the back-off delay, which is canceled if
  there is one; the status name and number are those of before.
\<close>

theorem cancel_frame:
  "(currentStatusName l = Some ''acquired'' \<longrightarrow>
      fst (cancel l env) = fst (free False l env)
      \<and> snd (snd (cancel l env)) = snd (snd (free False l env))
      \<and> currentStatusName (fst (snd (cancel l env))) = currentStatusName (fst (snd (free False l env)))
      \<and> currentStatus (fst (snd (cancel l env))) = currentStatus (fst (snd (free False l env))))
   \<and> (currentStatusName l \<noteq> Some ''acquired'' \<longrightarrow>
      cancel l env = (None, l\<lparr>tryLockTimeout := cancelDelay (tryLockTimeout l)\<rparr>, [])
      \<and> currentStatusName (fst (snd (cancel l env))) = currentStatusName l
      \<and> currentStatus (fst (snd (cancel l env))) = currentStatus l)"
proof -
  obtain r l1 evs where f: "free False l env = (r, l1, evs)" by (cases "free False l env") auto
  show ?thesis by (cases r) (simp_all add: cancel_def f)
qed

theorem cancel_frame_witness:
  "currentStatusName adoptedHandle = Some ''acquired''
   \<and> cancel adoptedHandle okRemote =
       (None,
        adoptedHandle\<lparr>currentStatus := Some 500, currentStatusName := Some ''freed''\<rparr>,
        [Resolved ''rda-lock'', Sent (DeleteLock (JNum 7))])
   \<and> free False adoptedHandle okRemote =
       (None,
        adoptedHandle\<lparr>currentStatus := Some 500, currentStatusName := Some ''freed''\<rparr>,
        [Resolved ''rda-lock'', Sent (DeleteLock (JNum 7))])
   \<and> currentStatusName (freshHandle\<lparr>tryLockTimeout := Some Pending\<rparr>) \<noteq> Some ''acquired''
   \<and> cancel (freshHandle\<lparr>tryLockTimeout := Some Pending\<rparr>) okRemote =
       (None, freshHandle\<lparr>tryLockTimeout := Some Canceled\<rparr>, [])"
proof -
  have a: "currentStatusName adoptedHandle = Some ''acquired''" by code_simp
  have b: "currentStatusName (freshHandle\<lparr>tryLockTimeout := Some Pending\<rparr>) \<noteq> Some ''acquired''"
    by code_simp
  have f: "free False adoptedHandle okRemote =
       (None,
        adoptedHandle\<lparr>currentStatus := Some 500, currentStatusName := Some ''freed''\<rparr>,
        [Resolved ''rda-lock'', Sent (DeleteLock (JNum 7))])" by code_simp
  have c: "cancel adoptedHandle okRemote =
       (None,
        adoptedHandle\<lparr>currentStatus := Some 500, currentStatusName := Some ''freed''\<rparr>,
        [Resolved ''rda-lock'', Sent (DeleteLock (JNum 7))])" by code_simp
  from cancel_frame [of "freshHandle\<lparr>tryLockTimeout := Some Pending\<rparr>" okRemote] b
  have "cancel (freshHandle\<lparr>tryLockTimeout := Some Pending\<rparr>) okRemote =
       (None, freshHandle\<lparr>tryLockTimeout := Some Canceled\<rparr>, [])"
    by (simp add: cancelDelay_def)
  with a b f c show ?thesis by simp
qed

section \<open>The factory\<close>

text \<open>
  C9, as stated, fails: the constructor tests \<open>typeof resourceId !== 'string'\<close> only, so
  the empty string is a valid resource identifier and \<open>createLock\<close> returns a handle in
  \<open>initialized\<close> for it.
\<close>

theorem createLock_accepts_empty_string:
  "createLock exampleClient (JStr '''') noOptions = Inr (freshHandle\<lparr>resourceId := JStr ''''\<rparr>)
   \<and> currentStatusName (freshHandle\<lparr>resourceId := JStr ''''\<rparr>) = Some ''initialized''"
  by code_simp

text \<open>
  C9, amended. On a client its constructor has returned, \<open>createLock\<close> accepts every
  string as resource identifier, the empty one included, and rejects every value that is
  not a string with the construction error. For a string it returns a fresh handle in the
  status \<open>initialized\<close>, with \<open>ttl\<close> 30, \<open>timeout\<close> 60 and \<open>keepAlive\<close> true wherever the
  option is left out, and with the given value otherwise.
\<close>

theorem createLock_result:
  assumes "newLockClient rc host = Inr c"
  shows "createLock c rid opts =
    (if typeof rid = ''string'' then
       Inr \<lparr>registryClient = client_registryClient c,
            lockId = Undefined,
            resourceId = rid,
            currentStatusName = Some ''initialized'',
            currentStatus = Some 100,
            ttl = (case opt_ttl opts of None \<Rightarrow> 30 | Some t \<Rightarrow> t),
            timeout = (case opt_timeout opts of None \<Rightarrow> 60 | Some t \<Rightarrow> t),
            doKeepAlive = (case opt_keepAlive opts of None \<Rightarrow> True | Some k \<Rightarrow> k),
            lockCallCount = 0,
            backOffFactor = 13 / 10,
            backOffUpperBound = 15,
            tryLockTimeout = None,
            keepAliveTimeout = None\<rparr>
     else Inl ResourceIdNotString)"
proof -
  from assms have t: "truthy (client_registryClient c)"
    by (auto simp: newLockClient_def split: if_splits)
  have i: "lockStatusMap ''initialized'' = Some 100"
    by (simp add: lockStatusMap_def lockStatusEntries_def)
  show ?thesis
    using t by (simp add: createLock_def newLock_def blankLock_def default_def
                          setStatus_known [OF i])
qed

theorem createLock_result_witness:
  "newLockClient Undefined (JStr ''http://l.dns.porn:9000'') = Inr exampleClient
   \<and> createLock exampleClient (JStr ''R'') noOptions = Inr freshHandle
   \<and> createLock exampleClient (JNum 5) noOptions = Inl ResourceIdNotString"
proof -
  have c: "newLockClient Undefined (JStr ''http://l.dns.porn:9000'') = Inr exampleClient"
    by code_simp
  from createLock_result [OF c, of "JStr ''R''" noOptions]
       createLock_result [OF c, of "JNum 5" noOptions] c
  show ?thesis by (simp add: noOptions_def freshHandle_def exampleClient_def)
qed

text \<open>
  C10. On a client its constructor has returned, \<open>adoptLock\<close> with a falsy identifier
  (0, the empty string, \<open>null\<close>, \<open>undefined\<close>, \<open>NaN\<close>, \<open>false\<close>) returns no handle: the
  constructor takes the branch of a fresh lock, finds no \<open>resourceId\<close> string and
  throws the construction error that asks for one.
\<close>

theorem adoptLock_falsy_identifier:
  assumes "newLockClient rc host = Inr c" and "\<not> truthy lid"
  shows "adoptLock c lid opts = Inl ResourceIdNotString"
proof -
  from assms(1) have "truthy (client_registryClient c)"
    by (auto simp: newLockClient_def split: if_splits)
  with assms(2) show ?thesis by (simp add: adoptLock_def newLock_def)
qed

theorem adoptLock_falsy_identifier_witness:
  "newLockClient Undefined (JStr ''http://l.dns.porn:9000'') = Inr exampleClient
   \<and> \<not> truthy (JNum 0) \<and> \<not> truthy (JStr '''') \<and> \<not> truthy Null \<and> \<not> truthy Undefined
   \<and> adoptLock exampleClient (JNum 0) noOptions = Inl ResourceIdNotString
   \<and> adoptLock exampleClient (JStr '''') noOptions = Inl ResourceIdNotString
   \<and> adoptLock exampleClient Null noOptions = Inl ResourceIdNotString
   \<and> adoptLock exampleClient Undefined noOptions = Inl ResourceIdNotString"
proof -
  have c: "newLockClient Undefined (JStr ''http://l.dns.porn:9000'') = Inr exampleClient"
    by code_simp
  from adoptLock_falsy_identifier [OF c, of "JNum 0" noOptions]
       adoptLock_falsy_identifier [OF c, of "JStr ''''" noOptions]
       adoptLock_falsy_identifier [OF c, of Null noOptions]
       adoptLock_falsy_identifier [OF c, of Undefined noOptions] c
  show ?thesis by simp
qed

section \<open>The attempt counter\<close>

lemma backOffOf_update [simp]:
  "backOffOf (l\<lparr>keepAliveTimeout := d\<rparr>) = backOffOf l"
  "backOffOf (l\<lparr>tryLockTimeout := d\<rparr>) = backOffOf l"
  "backOffOf (l\<lparr>lockId := x\<rparr>) = backOffOf l"
  "backOffOf (l\<lparr>currentStatus := c, currentStatusName := n\<rparr>) = backOffOf l"
  by (simp_all add: backOffOf_def)

lemma setStatus_backOff: "backOffOf (snd (setStatus n l)) = backOffOf l"
proof -
  have known: "backOffOf (snd (setStatus k l)) = backOffOf l" if "lockStatusMap k = Some s" for k s
    by (simp add: setStatus_known [OF that] split: option.splits)
  show ?thesis
  proof (cases "lockStatusMap n")
    case None
    with known [OF lockStatusMap_failed] show ?thesis
      by (auto simp: setStatus_unknown split: prod.splits option.splits)
  next
    case (Some s)
    then show ?thesis by (rule known)
  qed
qed

lemma setStatus_backOff_eq: "setStatus n l = (r, l') \<Longrightarrow> backOffOf l' = backOffOf l"
  using setStatus_backOff [of n l] by simp

lemma free_backOff: "backOffOf (fst (snd (free b l env))) = backOffOf l"
  by (auto simp: free_def Let_def split: prod.splits option.splits dest!: setStatus_backOff_eq)

lemma cancel_backOff: "backOffOf (fst (snd (cancel l env))) = backOffOf l"
proof -
  obtain r l1 evs where f: "free False l env = (r, l1, evs)" by (cases "free False l env") auto
  from free_backOff [of False l env] f show ?thesis
    by (simp add: cancel_def split: option.splits)
qed

lemma keepAlive_backOff: "backOffOf (fst (snd (keepAlive l w env))) = backOffOf l"
  by (auto simp: keepAlive_def Let_def split: prod.splits option.splits wait_outcome.splits
           dest!: setStatus_backOff_eq)

lemma applyCalls_backOff: "backOffOf (fst (applyCalls cs l)) = backOffOf l"
proof (induction cs arbitrary: l)
  case Nil
  show ?case by simp
next
  case (Cons c cs)
  have "backOffOf (fst (applyCall c l)) = backOffOf l"
    by (cases c) (simp_all add: cancel_backOff free_backOff)
  with Cons.IH [of "fst (applyCall c l)"] show ?case
    by (auto split: prod.splits)
qed

lemma lockEnd_backOff: "backOffOf (fst (snd (lockEnd l ka))) = backOffOf l"
proof -
  obtain c l1 evs where k: "keepAlive l (fst ka) (snd ka) = (c, l1, evs)"
    by (cases "keepAlive l (fst ka) (snd ka)") auto
  from keepAlive_backOff [of l "fst ka" "snd ka"] k have "backOffOf l1 = backOffOf l" by simp
  then show ?thesis
    by (auto simp: lockEnd_def k split: prod.splits option.splits completion.splits
             dest!: setStatus_backOff_eq)
qed

lemma lockGranted_backOff: "backOffOf (fst (snd (lockGranted l ident env ka))) = backOffOf l"
proof -
  obtain r1 l1 evs where f: "free True l env = (r1, l1, evs)" by (cases "free True l env") auto
  obtain r2 l2 where s2: "setStatus ''acquired'' l = (r2, l2)" by fastforce
  from free_backOff [of True l env] f have b1: "backOffOf l1 = backOffOf l" by simp
  from setStatus_backOff_eq [OF s2] have b2: "backOffOf l2 = backOffOf l" .
  from lockEnd_backOff [of l1 ka] lockEnd_backOff [of "l2\<lparr>lockId := ident\<rparr>" ka] b1 b2
  show ?thesis
    by (auto simp: lockGranted_def f s2 split: option.splits prod.splits)
qed

lemma lockLoop_backOff: "backOffOf (fst (snd (lockLoop l lockStart its ka))) = backOffOf l"
proof (induction its arbitrary: l)
  case Nil
  show ?case by simp
next
  case (Cons it its)
  obtain r evs where t: "tryToLock l (resolves it) (response it) = (r, evs)"
    by (cases "tryToLock l (resolves it) (response it)") auto
  obtain l1 evs1 where c1: "applyCalls (during_request it) l = (l1, evs1)"
    by (cases "applyCalls (during_request it) l") auto
  obtain l3 evs3 where
    c3: "applyCalls (during_wait it) (l1\<lparr>tryLockTimeout := Some Pending\<rparr>) = (l3, evs3)"
    by (cases "applyCalls (during_wait it) (l1\<lparr>tryLockTimeout := Some Pending\<rparr>)") auto
  obtain c4 l4 evs4 where loop: "lockLoop l3 lockStart its ka = (c4, l4, evs4)"
    by (cases "lockLoop l3 lockStart its ka") auto
  from applyCalls_backOff [of "during_request it" l] c1 have b1: "backOffOf l1 = backOffOf l"
    by simp
  from applyCalls_backOff [of "during_wait it" "l1\<lparr>tryLockTimeout := Some Pending\<rparr>"] c3 b1
  have b3: "backOffOf l3 = backOffOf l" by simp
  from Cons.IH [of l3] loop b3 have b4: "backOffOf l4 = backOffOf l" by simp
  show ?case
  proof (cases r)
    case (Inl e)
    with b1 show ?thesis by (simp add: t c1 lockEnd_backOff)
  next
    case (Inr ident)
    obtain cg lg eg where g: "lockGranted l1 ident (free_remote it) ka = (cg, lg, eg)"
      by (cases "lockGranted l1 ident (free_remote it) ka") auto
    from lockGranted_backOff [of l1 ident "free_remote it" ka] g b1
    have "backOffOf lg = backOffOf l" by simp
    with Inr b3 b4 show ?thesis
      by (simp add: t c1 c3 loop g Let_def lockEnd_backOff split: wait_outcome.splits)
  qed
qed

lemma lock_backOff: "backOffOf (fst (snd (lock l lockStart its ka))) = backOffOf l"
proof -
  obtain r1 l1 where s1: "setStatus ''acquiring'' l = (r1, l1)" by fastforce
  from setStatus_backOff_eq [OF s1] lockLoop_backOff [of l1 lockStart its ka] show ?thesis
    by (simp add: lock_def s1 split: option.splits)
qed

lemma applyOp_backOff: "backOffOf (applyOp op l) = backOffOf l"
proof (cases op)
  case (OpCall c)
  then show ?thesis by (cases c) (simp_all add: cancel_backOff free_backOff)
qed (simp_all add: lock_backOff keepAlive_backOff setStatus_backOff)

lemma run_backOff: "backOffOf (run ops l) = backOffOf l"
  by (induction ops arbitrary: l) (simp_all add: applyOp_backOff)

lemma backOffTime_constant:
  assumes "newLock a = Inr l"
  shows "lockCallCount (run ops l) = 0 \<and> backOffTime (run ops l) = 1000"
proof -
  from assms have "backOffOf l = (0, 13 / 10, 15)"
    by (auto simp: newLock_def blankLock_def backOffOf_def split: if_splits prod.splits option.splits
             dest!: setStatus_backOff_eq)
  with run_backOff [of ops l] show ?thesis
    by (simp add: backOffOf_def backOffTime_def)
qed

text \<open>
  C3 says that every conflict increments the attempt counter, so that the waits grow as
  1.3 to the power of the count. The code never writes \<open>lockCallCount\<close> after the
  constructor has set it to zero (\<open>backOffTime_constant\<close>: after any run of operations on
  a constructed handle the counter is 0 and the back-off time 1000 ms). Evaluated on the
  handle for \<open>R\<close> created without keep-alive, with three conflicts and then a grant: the
  three waits are 1000 ms each, where the claim has 1300, 1690 and 2197 ms, and the
  counter is still 0.
\<close>

theorem conflicts_leave_counter_at_zero:
  "createLock exampleClient (JStr ''R'') (noOptions\<lparr>opt_keepAlive := Some False\<rparr>) =
     Inr (freshHandle\<lparr>doKeepAlive := False\<rparr>)
   \<and> lock (freshHandle\<lparr>doKeepAlive := False\<rparr>) 0
       [conflictPass 1, conflictPass 1002, conflictPass 2003, grantPass 3004]
       (Resumed, okRemote) =
     (Returned,
      freshHandle\<lparr>doKeepAlive := False, lockId := JNum 7, currentStatus := Some 300,
                  currentStatusName := Some ''acquired'', tryLockTimeout := Some Pending\<rparr>,
      [Resolved ''rda-lock'', Sent (CreateLock 30 (JStr ''R'')), Waited 1000,
       Resolved ''rda-lock'', Sent (CreateLock 30 (JStr ''R'')), Waited 1000,
       Resolved ''rda-lock'', Sent (CreateLock 30 (JStr ''R'')), Waited 1000,
       Resolved ''rda-lock'', Sent (CreateLock 30 (JStr ''R''))])
   \<and> lockCallCount (fst (snd (lock (freshHandle\<lparr>doKeepAlive := False\<rparr>) 0
        [conflictPass 1, conflictPass 1002, conflictPass 2003, grantPass 3004]
        (Resumed, okRemote)))) = 0
   \<and> backOffFactor freshHandle ^ min (backOffUpperBound freshHandle) 1 * 1000 = 1300
   \<and> backOffFactor freshHandle ^ min (backOffUpperBound freshHandle) 2 * 1000 = 1690
   \<and> backOffFactor freshHandle ^ min (backOffUpperBound freshHandle) 3 * 1000 = 2197"
  by code_simp

section \<open>Renewals\<close>

lemma renewals_simps [simp]:
  "renewals [] = 0"
  "renewals (evs @ evs') = renewals evs + renewals evs'"
  "renewals (Resolved s # evs) = renewals evs"
  "renewals (Waited t # evs) = renewals evs"
  "renewals (Logged e # evs) = renewals evs"
  "renewals (Sent (CreateLock t i) # evs) = renewals evs"
  "renewals (Sent (DeleteLock i) # evs) = renewals evs"
  "renewals (Sent (RenewLock i) # evs) = Suc (renewals evs)"
  by (simp_all add: renewals_def)

lemma tryToLock_renewals: "renewals (snd (tryToLock l res resp)) = 0"
  by (simp add: tryToLock_def Let_def split: post_response.splits option.splits)

lemma free_renewals: "renewals (snd (snd (free b l env))) = 0"
  by (simp add: free_def Let_def split: prod.splits option.splits)

lemma cancel_renewals: "renewals (snd (snd (cancel l env))) = 0"
proof -
  obtain r l1 evs where f: "free False l env = (r, l1, evs)" by (cases "free False l env") auto
  from free_renewals [of False l env] f show ?thesis
    by (simp add: cancel_def split: option.splits)
qed

lemma applyCalls_renewals: "renewals (snd (applyCalls cs l)) = 0"
proof (induction cs arbitrary: l)
  case Nil
  show ?case by simp
next
  case (Cons c cs)
  have "renewals (snd (applyCall c l)) = 0"
    by (cases c) (simp_all add: cancel_renewals free_renewals)
  with Cons.IH [of "fst (applyCall c l)"] show ?case
    by (auto split: prod.splits)
qed

lemma keepAlive_renewals: "renewals (snd (snd (keepAlive l w env))) \<le> 1"
  by (simp add: keepAlive_def Let_def split: prod.splits option.splits wait_outcome.splits)

lemma lockEnd_renewals: "renewals (snd (snd (lockEnd l ka))) \<le> 1"
proof -
  obtain c l1 evs where k: "keepAlive l (fst ka) (snd ka) = (c, l1, evs)"
    by (cases "keepAlive l (fst ka) (snd ka)") auto
  from keepAlive_renewals [of l "fst ka" "snd ka"] k have "renewals evs \<le> 1" by simp
  then show ?thesis
    by (simp add: lockEnd_def k split: prod.splits option.splits completion.splits)
qed

lemma lockGranted_renewals: "renewals (snd (snd (lockGranted l ident env ka))) \<le> 1"
proof -
  obtain r1 l1 evs where f: "free True l env = (r1, l1, evs)" by (cases "free True l env") auto
  obtain r2 l2 where s2: "setStatus ''acquired'' l = (r2, l2)" by fastforce
  from free_renewals [of True l env] f have "renewals evs = 0" by simp
  with lockEnd_renewals [of l1 ka] lockEnd_renewals [of "l2\<lparr>lockId := ident\<rparr>" ka]
  show ?thesis
    by (auto simp: lockGranted_def f s2 split: option.splits prod.splits)
qed

lemma lockLoop_renewals: "renewals (snd (snd (lockLoop l lockStart its ka))) \<le> 1"
proof (induction its arbitrary: l)
  case Nil
  show ?case by simp
next
  case (Cons it its)
  obtain r evs where t: "tryToLock l (resolves it) (response it) = (r, evs)"
    by (cases "tryToLock l (resolves it) (response it)") auto
  obtain l1 evs1 where c1: "applyCalls (during_request it) l = (l1, evs1)"
    by (cases "applyCalls (during_request it) l") auto
  obtain l3 evs3 where
    c3: "applyCalls (during_wait it) (l1\<lparr>tryLockTimeout := Some Pending\<rparr>) = (l3, evs3)"
    by (cases "applyCalls (during_wait it) (l1\<lparr>tryLockTimeout := Some Pending\<rparr>)") auto
  obtain c4 l4 evs4 where loop: "lockLoop l3 lockStart its ka = (c4, l4, evs4)"
    by (cases "lockLoop l3 lockStart its ka") auto
  from tryToLock_renewals [of l "resolves it" "response it"] t have r0: "renewals evs = 0"
    by simp
  from applyCalls_renewals [of "during_request it" l] c1 have r1: "renewals evs1 = 0" by simp
  from applyCalls_renewals [of "during_wait it" "l1\<lparr>tryLockTimeout := Some Pending\<rparr>"] c3
  have r3: "renewals evs3 = 0" by simp
  from Cons.IH [of l3] loop have r4: "renewals evs4 \<le> 1" by simp
  from lockEnd_renewals [of l ka] have r5: "renewals (snd (snd (lockEnd l ka))) \<le> Suc 0"
    by simp
  show ?case
  proof (cases r)
    case (Inl e)
    with r0 r1 r5 show ?thesis by (simp add: t c1)
  next
    case (Inr ident)
    obtain cg lg eg where g: "lockGranted l1 ident (free_remote it) ka = (cg, lg, eg)"
      by (cases "lockGranted l1 ident (free_remote it) ka") auto
    from lockGranted_renewals [of l1 ident "free_remote it" ka] g have "renewals eg \<le> 1" by simp
    with Inr r0 r1 r3 r4 r5 show ?thesis
      by (simp add: t c1 c3 loop g Let_def split: wait_outcome.splits)
  qed
qed

lemma lock_renews_at_most_once: "renewals (snd (snd (lock l lockStart its ka))) \<le> 1"
proof -
  obtain r1 l1 where s1: "setStatus ''acquiring'' l = (r1, l1)" by fastforce
  from lockLoop_renewals [of l1 lockStart its ka] show ?thesis
    by (simp add: lock_def s1 split: option.splits)
qed

text \<open>
  C2 says that the keep-alive activity repeats its cycle of sleeping and renewing until it
  is canceled or a renewal fails. \<open>keepAlive\<close> has no loop and nothing calls it but the end
  of \<open>lock\<close>, once: whatever the environment answers, \<open>lock\<close> issues at most one renew
  request (\<open>lock_renews_at_most_once\<close>). Evaluated on the fresh handle for \<open>R\<close>, granted
  lock 7 at the first attempt, with the renewal succeeding: one wait of 19800 ms
  (\<open>Math.round(30 * 0.66 * 1000)\<close>), one renew request, and the activity has returned.
\<close>

theorem keepAlive_renews_once:
  "lock freshHandle 0 [grantPass 1] (Resumed, okRemote) =
     (Returned,
      freshHandle\<lparr>lockId := JNum 7, currentStatus := Some 300,
                  currentStatusName := Some ''acquired'', keepAliveTimeout := Some Pending\<rparr>,
      [Resolved ''rda-lock'', Sent (CreateLock 30 (JStr ''R'')),
       Waited 19800, Resolved ''rda-lock'', Sent (RenewLock (JNum 7))])
   \<and> keepAlive adoptedHandle Resumed okRemote =
     (Returned, adoptedHandle\<lparr>keepAliveTimeout := Some Pending\<rparr>,
      [Waited 19800, Resolved ''rda-lock'', Sent (RenewLock (JNum 7))])"
  by code_simp

section \<open>A grant that arrives too late\<close>

lemma lockGranted_past_acquired:
  assumes "statusConsistent l" and "300 < statusRank l"
  shows "lockGranted l ident env ka =
    (Threw (StatusNotHigher (currentStatusName l) (currentStatus l) ''freeing'' 400),
     l\<lparr>keepAliveTimeout := cancelDelay (keepAliveTimeout l)\<rparr>, [])"
proof -
  from assms(1) obtain n c where l: "currentStatusName l = Some n" "currentStatus l = Some c"
    "lockStatusMap n = Some c" "statusRank l = c" by (rule statusConsistentD)
  from lockStatusMap_SomeD [OF l(3)] assms(2) l(4) have c: "400 \<le> c"
    by (auto simp: lockStatusEntries_def)
  have q: "lockStatusMap ''acquired'' = Some 300" "lockStatusMap ''freeing'' = Some 400"
    by (simp_all add: lockStatusMap_def lockStatusEntries_def)
  let ?l0 = "l\<lparr>keepAliveTimeout := cancelDelay (keepAliveTimeout l)\<rparr>"
  from assms(1) have "statusConsistent ?l0" by simp
  from setStatus_consistent [OF this, of "''freeing''"] c l q
  have "setStatus ''freeing'' ?l0 =
      (Some (StatusNotHigher (currentStatusName l) (currentStatus l) ''freeing'' 400), ?l0)"
    by simp
  with assms(2) l q show ?thesis
    by (simp add: lockGranted_def free_def)
qed

text \<open>
  C4 says that a grant arriving when the status is already past \<open>acquired\<close> is answered
  with the remote delete of the granted lock. \<open>lock\<close> does call \<open>free(true)\<close> there, but
  \<open>free\<close> sets the status \<open>freeing\<close> before it sends anything, and from any status past
  \<open>acquired\<close> that throws (\<open>lockGranted_past_acquired\<close>). Evaluated on the fresh handle
  for \<open>R\<close>: while the create request is in flight another caller runs \<open>free(true)\<close>, whose
  delete fails and leaves the status \<open>failed\<close>; the create request is then granted lock 7.
  \<open>lock\<close> throws the status error and no delete request for lock 7 is sent.
\<close>

theorem late_grant_is_not_freed:
  "lock freshHandle 0 [(grantPass 1)\<lparr>during_request := [CallFree True deleteFails]\<rparr>]
     (Resumed, okRemote) =
   (Threw (StatusNotHigher (Some ''failed'') (Some 999) ''freeing'' 400),
    freshHandle\<lparr>currentStatus := Some 999, currentStatusName := Some ''failed''\<rparr>,
    [Resolved ''rda-lock'', Sent (CreateLock 30 (JStr ''R'')),
     Resolved ''rda-lock'', Sent (DeleteLock Undefined)])
   \<and> lockGranted (freshHandle\<lparr>currentStatus := Some 999, currentStatusName := Some ''failed''\<rparr>)
       (JNum 7) okRemote (Resumed, okRemote) =
   (Threw (StatusNotHigher (Some ''failed'') (Some 999) ''freeing'' 400),
    freshHandle\<lparr>currentStatus := Some 999, currentStatusName := Some ''failed''\<rparr>, [])"
  by code_simp

section \<open>\<open>free\<close>\<close>

lemma free_not_acquired:
  "currentStatusName l \<noteq> Some ''acquired'' \<Longrightarrow>
   free False l env = (Some (CannotFree (currentStatusName l)), l, [])"
  by (simp add: free_def)

lemma free_from_acquired:
  assumes "statusConsistent l" and "currentStatusName l = Some ''acquired''"
    and "resolve_ok env"
  shows "free b l env =
    (if request_ok env
     then (None,
           l\<lparr>keepAliveTimeout := cancelDelay (keepAliveTimeout l),
             currentStatus := Some 500, currentStatusName := Some ''freed''\<rparr>,
           [Resolved ''rda-lock'', Sent (DeleteLock (lockId l))])
     else (Some RequestFailed,
           l\<lparr>keepAliveTimeout := cancelDelay (keepAliveTimeout l),
             currentStatus := Some 999, currentStatusName := Some ''failed''\<rparr>,
           [Resolved ''rda-lock'', Sent (DeleteLock (lockId l))]))"
proof -
  have q: "lockStatusMap ''acquired'' = Some 300" "lockStatusMap ''freeing'' = Some 400"
    "lockStatusMap ''freed'' = Some 500"
    by (simp_all add: lockStatusMap_def lockStatusEntries_def)
  from assms(1,2) q have c: "currentStatus l = Some 300"
    by (simp add: statusConsistent_def)
  let ?l0 = "l\<lparr>keepAliveTimeout := cancelDelay (keepAliveTimeout l)\<rparr>"
  let ?l1 = "?l0\<lparr>currentStatus := Some 400, currentStatusName := Some ''freeing''\<rparr>"
  have s1: "setStatus ''freeing'' ?l0 = (None, ?l1)"
    using c by (simp add: setStatus_known [OF q(2)])
  have s2: "setStatus ''freed'' ?l1 =
      (None, ?l1\<lparr>currentStatus := Some 500, currentStatusName := Some ''freed''\<rparr>)"
    by (simp add: setStatus_known [OF q(3)])
  have s3: "setStatus ''failed'' ?l1 =
      (None, ?l1\<lparr>currentStatus := Some 999, currentStatusName := Some ''failed''\<rparr>)"
    by (simp add: setStatus_known [OF lockStatusMap_failed])
  from assms(2,3) show ?thesis
    by (simp add: free_def s1 s2 s3 Let_def)
qed

text \<open>
  C7 says that \<open>free\<close> from \<open>acquired\<close> always ends in \<open>freed\<close> or \<open>failed\<close>. That holds
  when the registry lookup succeeds (\<open>free_from_acquired\<close>), and \<open>free\<close> from another
  status fails unless \<open>ignoreStatus\<close> is set (\<open>free_not_acquired\<close>). But the lookup is
  awaited after the status \<open>freeing\<close> is set and outside the handler that sets \<open>failed\<close>:
  evaluated on the adopted handle for lock 7 with the lookup failing, \<open>free\<close> raises the
  lookup error and the handle rests in \<open>freeing\<close>.
\<close>

theorem free_rests_in_freeing:
  "currentStatusName adoptedHandle = Some ''acquired''
   \<and> free False adoptedHandle noRegistry =
     (Some ResolveFailed,
      adoptedHandle\<lparr>currentStatus := Some 400, currentStatusName := Some ''freeing''\<rparr>,
      [Resolved ''rda-lock''])"
  by code_simp

end
